theory Spec2Isabelle
  imports Main "HOL-Library.Multiset"
begin

section \<open>Values, channels and cancellation\<close>

text \<open>
  Every element carried by the combinators is a Go \<^verbatim>\<open>interface{}\<close> value: either the
  nil interface (the zero value, which a receive from a closed channel yields) or a
  value boxed together with its dynamic type.
\<close>

datatype val = NilV | IntV int | StringV string | BoolV bool

datatype ty = TInt | TString | TBool


text \<open>
  A channel is described by everything that travels over it: \<open>items\<close> are the values
  its single writer delivers, in order, and \<open>closed\<close> tells whether the writer closes
  the channel after the last of them. A channel that is not closed leaves its reader
  blocked forever once the items are consumed; the nil channel, from which a receive
  never proceeds, reads like a channel without items that is never closed. The same
  description serves for the input of a worker (what it will be able to receive) and
  for its output (what a consumer that drains the channel observes): the consumers of
  the outputs are taken to receive every value that is offered to them.
\<close>

datatype 'a chan = Chan (items: "'a list") (closed: bool)

datatype 'a received = Blocks | Closed | Got 'a "'a chan"

fun recv :: "'a chan \<Rightarrow> 'a received" where
  "recv (Chan [] c) = (if c then Closed else Blocks)"
| "recv (Chan (v # vs) c) = Got v (Chan vs c)"

text \<open>
  The one-result receive \<^verbatim>\<open><-ch\<close> on a channel of \<^verbatim>\<open>interface{}\<close>: a closed channel
  yields the zero value at once, and stays closed. \<open>None\<close> is a receive that never
  completes.
\<close>

fun recv_val :: "val chan \<Rightarrow> (val \<times> val chan) option" where
  "recv_val ch =
     (case recv ch of
        Blocks \<Rightarrow> None
      | Closed \<Rightarrow> Some (NilV, ch)
      | Got v ch' \<Rightarrow> Some (v, ch'))"

text \<open>A send that the consumer accepts puts the value in front of what the worker sends later.\<close>

fun emit :: "'a \<Rightarrow> 'a chan \<Rightarrow> 'a chan" where
  "emit v (Chan vs c) = Chan (v # vs) c"

text \<open>
  The cancellation signal as one goroutine sees it: \<open>d k\<close> holds when the \<open>k\<close>-th
  \<^verbatim>\<open>select\<close> that the goroutine executes takes its \<^verbatim>\<open>case <-done\<close>. Every function of
  this type is a possible behaviour: before \<^verbatim>\<open>done\<close> is closed the case is never
  taken, and afterwards Go chooses among the ready cases at random. Where the other
  cases of a \<^verbatim>\<open>select\<close> can never proceed, \<open>d k = False\<close> leaves the goroutine blocked
  forever.
\<close>

type_synonym cancel = "nat \<Rightarrow> bool"

definition never :: cancel where
  "never = (\<lambda>k. False)"

section \<open>OrDoneChannel\<close>

text \<open>
  \<^verbatim>\<open>for { select { case <-done: return
                 case v, ok := <-c:
                   if ok == false { return }
                   select { case valStream <- v: case <-done: } } }\<close>
  with \<^verbatim>\<open>defer close(valStream)\<close>. Each element costs two \<^verbatim>\<open>select\<close>s; the second
  one, when it takes \<^verbatim>\<open>done\<close>, drops the element and goes round the loop again.
\<close>

fun OrDone_loop :: "cancel \<Rightarrow> nat \<Rightarrow> 'a chan \<Rightarrow> 'a chan" where
  "OrDone_loop d k (Chan [] c) =
     (if d k then Chan [] True
      else if c then Chan [] True
      else Chan [] False)"
| "OrDone_loop d k (Chan (v # vs) c) =
     (if d k then Chan [] True
      else if d (Suc k) then OrDone_loop d (Suc (Suc k)) (Chan vs c)
      else emit v (OrDone_loop d (Suc (Suc k)) (Chan vs c)))"

definition OrDoneChannel :: "cancel \<Rightarrow> 'a chan \<Rightarrow> 'a chan" where
  "OrDoneChannel d c = OrDone_loop d 0 c"

section \<open>TakeChannel\<close>

text \<open>
  \<^verbatim>\<open>for i := 0; i < num; i++ {
       select { case <-done: return
                case takeStream <- <- valueStream: } }\<close>
  with \<^verbatim>\<open>defer close(takeStream)\<close>. Go evaluates the right-hand side of the send,
  the receive \<^verbatim>\<open><-valueStream\<close>, on entering the \<^verbatim>\<open>select\<close>, before any case is
  chosen; the receive has no \<^verbatim>\<open>ok\<close> result, so a closed source supplies the nil
  interface. The counter \<open>i\<close> stays below \<open>num\<close>, so the Go \<^verbatim>\<open>int\<close> never wraps.
\<close>

function take_loop :: "cancel \<Rightarrow> nat \<Rightarrow> val chan \<Rightarrow> int \<Rightarrow> int \<Rightarrow> val chan" where
  "take_loop d k valueStream i num =
     (if i < num then
        (case recv_val valueStream of
           None \<Rightarrow> Chan [] False
         | Some (v, rest) \<Rightarrow>
             if d k then Chan [] True
             else emit v (take_loop d (Suc k) rest (i + 1) num))
      else Chan [] True)"
  by pat_completeness auto
termination
  by (relation "measure (\<lambda>(d, k, valueStream, i, num). nat (num - i))") auto

definition TakeChannel :: "cancel \<Rightarrow> val chan \<Rightarrow> int \<Rightarrow> val chan" where
  "TakeChannel d valueStream num = take_loop d 0 valueStream 0 num"

section \<open>RepeatValueChannel\<close>

text \<open>
  \<^verbatim>\<open>for { for _, v := range values {
           select { case <-done: return
                    case valStream <- v: } } }\<close>
  with \<^verbatim>\<open>defer close(valStream)\<close>. The inner \<^verbatim>\<open>range\<close> is \<open>repeat_range\<close>: it reports
  whether the worker returned, the number of \<^verbatim>\<open>select\<close>s executed so far and the values
  sent so far. The outer \<^verbatim>\<open>for\<close> has no exit of its own, so it is a partial function:
  \<open>None\<close> is a worker that never returns, and so never closes \<^verbatim>\<open>valStream\<close>.
\<close>

fun repeat_range :: "cancel \<Rightarrow> nat \<Rightarrow> val list \<Rightarrow> val list \<Rightarrow> bool \<times> nat \<times> val list" where
  "repeat_range d k [] out = (False, k, out)"
| "repeat_range d k (v # vs) out =
     (if d k then (True, k, out)
      else repeat_range d (Suc k) vs (out @ [v]))"

partial_function (option) repeat_for :: "cancel \<Rightarrow> nat \<Rightarrow> val list \<Rightarrow> val list \<Rightarrow> val chan option" where
  "repeat_for d k values out =
     (let (returned, k', out') = repeat_range d k values out
      in if returned then Some (Chan out' True)
         else repeat_for d k' values out')"

definition RepeatValueChannel :: "cancel \<Rightarrow> val list \<Rightarrow> val chan option" where
  "RepeatValueChannel d values = repeat_for d 0 values []"

section \<open>Typed extraction: ToTChannel and ToIntChannel\<close>

datatype error = TypeAssertion val ty | MakechanSizeOutOfRange






section \<open>BufferChannel and ThrottleChannel\<close>

text \<open>
  \<^verbatim>\<open>make(chan interface{}, size)\<close> runs in the caller, before the worker is started. It
  panics (\<^verbatim>\<open>makechan: size out of range\<close>) when the size is negative and when the size
  is beyond what the runtime allocates for a channel. That limit belongs to the Go
  runtime and the platform, not to this repository, so it is the parameter \<open>maxcap\<close>:
  the largest size that the runtime accepts.
\<close>

fun make_chan :: "nat \<Rightarrow> int \<Rightarrow> error + nat" where
  "make_chan maxcap n =
     (if n < 0 \<or> int maxcap < n then Inl MakechanSizeOutOfRange else Inr (nat n))"

text \<open>
  \<^verbatim>\<open>for val := range orDone(done, in) {
       select { case <-done: return
                case interfaceChannel <- val: } }\<close>
  with the deferred \<^verbatim>\<open>close(interfaceChannel)\<close>. The \<^verbatim>\<open>range\<close> ends when the relay
  closes its output; while that stays open the worker waits for ever.
\<close>

fun buffer_range :: "cancel \<Rightarrow> nat \<Rightarrow> val chan \<Rightarrow> val chan" where
  "buffer_range d k (Chan [] c) = Chan [] c"
| "buffer_range d k (Chan (v # vs) c) =
     (if d k then Chan [] True
      else emit v (buffer_range d (Suc k) (Chan vs c)))"

text \<open>
  \<open>d\<close> is the cancellation as the worker sees it and \<open>od\<close> as the relay started by
  \<^verbatim>\<open>orDone(done, in)\<close> sees it. Once the channel is allocated, the capacity only decides how far the worker may run
  ahead of the consumer, not what the consumer receives.
\<close>

definition BufferChannel :: "nat \<Rightarrow> cancel \<Rightarrow> cancel \<Rightarrow> val chan \<Rightarrow> int \<Rightarrow> error + val chan" where
  "BufferChannel maxcap d od inp limit =
     (case make_chan maxcap limit of
        Inl e \<Rightarrow> Inl e
      | Inr cap \<Rightarrow> Inr (buffer_range d 0 (OrDoneChannel od inp)))"

text \<open>
  \<^verbatim>\<open>for val := range orDone(done, in) {
       tokens <- struct{}{}
       select { case <-done: return
                case interfaceChannel <- val: <-tokens } }\<close>
  Only the worker uses \<^verbatim>\<open>tokens\<close>; \<open>held\<close> counts the tokens in its buffer of
  capacity \<open>cap\<close>. The send of a token into a full buffer never completes.
\<close>

fun throttle_range :: "cancel \<Rightarrow> nat \<Rightarrow> nat \<Rightarrow> nat \<Rightarrow> val chan \<Rightarrow> val chan" where
  "throttle_range d k cap held (Chan [] c) = Chan [] c"
| "throttle_range d k cap held (Chan (v # vs) c) =
     (if held < cap then
        (if d k then Chan [] True
         else emit v (throttle_range d (Suc k) cap (Suc held - 1) (Chan vs c)))
      else Chan [] False)"

definition ThrottleChannel :: "nat \<Rightarrow> cancel \<Rightarrow> cancel \<Rightarrow> val chan \<Rightarrow> int \<Rightarrow> error + val chan" where
  "ThrottleChannel maxcap d od inp limit =
     (case make_chan maxcap limit of
        Inl e \<Rightarrow> Inl e
      | Inr cap \<Rightarrow> Inr (throttle_range d 0 cap 0 (OrDoneChannel od inp)))"

section \<open>RepeatFnChannel\<close>

text \<open>
  \<^verbatim>\<open>for { select { case <-done: return
                 case valStream <- fn(): } }\<close>
  The function may be impure, so it is a step on a state of its own; as the right-hand
  side of the send it is called on entering each \<^verbatim>\<open>select\<close>, whichever case is taken.
\<close>

partial_function (option) repeatfn_for :: "cancel \<Rightarrow> nat \<Rightarrow> ('s \<Rightarrow> val \<times> 's) \<Rightarrow> 's \<Rightarrow> val list \<Rightarrow> val chan option" where
  "repeatfn_for d k fn s out =
     (let (v, s') = fn s
      in if d k then Some (Chan out True)
         else repeatfn_for d (Suc k) fn s' (out @ [v]))"

definition RepeatFnChannel :: "cancel \<Rightarrow> ('s \<Rightarrow> val \<times> 's) \<Rightarrow> 's \<Rightarrow> val chan option" where
  "RepeatFnChannel d fn s = repeatfn_for d 0 fn s []"

section \<open>GeneratorToChannel\<close>

text \<open>
  \<^verbatim>\<open>for _, i := range slice {
       select { case <-done: return
                case interfaceChannel <- i: } }\<close>
  with \<^verbatim>\<open>defer close(interfaceChannel)\<close>.
\<close>

fun generator_range :: "cancel \<Rightarrow> nat \<Rightarrow> val list \<Rightarrow> val chan" where
  "generator_range d k [] = Chan [] True"
| "generator_range d k (i # rest) =
     (if d k then Chan [] True
      else emit i (generator_range d (Suc k) rest))"

definition GeneratorToChannel :: "cancel \<Rightarrow> val list \<Rightarrow> val chan" where
  "GeneratorToChannel d slice = generator_range d 0 slice"

text \<open>The same loop over a \<^verbatim>\<open>[]string\<close>; each string is boxed when it is sent.\<close>

fun string_generator_range :: "cancel \<Rightarrow> nat \<Rightarrow> string list \<Rightarrow> val chan" where
  "string_generator_range d k [] = Chan [] True"
| "string_generator_range d k (i # rest) =
     (if d k then Chan [] True
      else emit (StringV i) (string_generator_range d (Suc k) rest))"

definition GeneratorFromStringArrayToChannel :: "cancel \<Rightarrow> string list \<Rightarrow> val chan" where
  "GeneratorFromStringArrayToChannel d slice = string_generator_range d 0 slice"

section \<open>OrChannel\<close>

text \<open>
  A done channel is used only for its closing, so what matters is which channel object
  it is: the nil channel or the channel allocated under some number. \<open>cl\<close> tells which
  channel objects have been closed so far; a receive from the nil channel never
  proceeds, whatever has been closed.
\<close>

datatype sigchan = NilChan | Ch nat

fun signalled :: "(nat \<Rightarrow> bool) \<Rightarrow> sigchan \<Rightarrow> bool" where
  "signalled cl NilChan = False"
| "signalled cl (Ch n) = cl n"

text \<open>
  A goroutine started by \<^verbatim>\<open>OrChannel\<close> waits in one \<^verbatim>\<open>select\<close> for any of the channels
  \<open>waits\<close> and then closes the channel it owns (\<^verbatim>\<open>defer close(orDone)\<close>).
\<close>

datatype or_worker = OrWorker (waits: "sigchan list") (closes: nat)

text \<open>
  \<^verbatim>\<open>switch len(channels) { case 0: return nil
                           case 1: return channels[0] }
   orDone := make(chan interface{})
   go func() { defer close(orDone)
     switch len(channels) {
     case 2:  select { case <-channels[0]: case <-channels[1]: }
     default: select { case <-channels[0]: case <-channels[1]: case <-channels[2]:
                       case <-OrChannel(append(channels[3:], orDone)...): } } }()
   return orDone\<close>
  \<open>fresh\<close> is the number of the next channel to allocate. The result is the channel
  returned, the goroutines started (by this call and by the nested calls that its
  goroutine makes) and the next free number.
\<close>

function OrChannel :: "sigchan list \<Rightarrow> nat \<Rightarrow> sigchan \<times> or_worker list \<times> nat" where
  "OrChannel channels fresh =
     (if length channels = 0 then (NilChan, [], fresh)
      else if length channels = 1 then (channels ! 0, [], fresh)
      else if length channels = 2 then
        (Ch fresh, [OrWorker [channels ! 0, channels ! 1] fresh], Suc fresh)
      else
        (let (rest, spawned, fresh') = OrChannel (drop 3 channels @ [Ch fresh]) (Suc fresh)
         in (Ch fresh,
             OrWorker [channels ! 0, channels ! 1, channels ! 2, rest] fresh # spawned,
             fresh')))"
  by pat_completeness auto
termination
proof (relation "measure (\<lambda>(channels, fresh). length channels)")
  fix channels :: "sigchan list" and fresh :: nat
  assume "length channels \<noteq> 0" "length channels \<noteq> 1" "length channels \<noteq> 2"
  then have "3 \<le> length channels" by arith
  then have "length (drop 3 channels @ [Ch fresh]) < length channels" by simp
  then show "((drop 3 channels @ [Ch fresh], Suc fresh), channels, fresh)
      \<in> measure (\<lambda>(channels, fresh). length channels)" by simp
qed simp

section \<open>FanInChannel\<close>

text \<open>
  \<^verbatim>\<open>multiplex := func(c <-chan interface{}) {
       defer wg.Done()
       for i := range c {
         select { case <-done: return
                  case multiplexedStream <- i: } } }
   wg.Add(len(channels))
   for _, c := range channels { go multiplex(c) }
   go func() { wg.Wait(); close(multiplexedStream) }()\<close>
  The multiplex goroutines run side by side and the scheduler decides whose send comes
  next: \<open>pick k\<close> names, modulo their number, the goroutine that moves at step \<open>k\<close>
  among those in \<open>running\<close>, each given by what is left of its input. A goroutine whose
  input is closed, or whose \<^verbatim>\<open>select\<close> takes \<^verbatim>\<open>done\<close>, returns and counts the WaitGroup
  \<open>wg\<close> down; one whose input stays open without a value waits for ever and never does.
  \<open>d k\<close> tells whether the \<^verbatim>\<open>select\<close> executed at step \<open>k\<close> takes \<^verbatim>\<open>done\<close>. The last
  goroutine closes the output once the counter is zero. \<open>pending\<close> bounds the number
  of steps still to come.
\<close>

definition remove_nth :: "nat \<Rightarrow> 'a list \<Rightarrow> 'a list" where
  "remove_nth i xs = take i xs @ drop (Suc i) xs"

definition pending :: "'a chan list \<Rightarrow> nat" where
  "pending running = sum_list (map (\<lambda>c. Suc (length (items c))) running)"

function fanin_run :: "(nat \<Rightarrow> nat) \<Rightarrow> cancel \<Rightarrow> nat \<Rightarrow> val chan list \<Rightarrow> int \<Rightarrow> val chan" where
  "fanin_run pick d k running wg =
     (if wg = 0 then Chan [] True
      else if running = [] then Chan [] False
      else
        (let i = pick k mod length running
         in case recv (running ! i) of
              Closed \<Rightarrow> fanin_run pick d (Suc k) (remove_nth i running) (wg - 1)
            | Blocks \<Rightarrow> fanin_run pick d (Suc k) (remove_nth i running) wg
            | Got v rest \<Rightarrow>
                if d k then fanin_run pick d (Suc k) (remove_nth i running) (wg - 1)
                else emit v (fanin_run pick d (Suc k) (running[i := rest]) wg)))"
  by pat_completeness auto
termination
proof -
  have split: "pending running = pending (take i running) + Suc (length (items (running ! i)))
      + pending (drop (Suc i) running)" if "i < length running" for running :: "val chan list" and i
  proof -
    have "running = take i running @ running ! i # drop (Suc i) running"
      using that by (simp add: id_take_nth_drop)
    from arg_cong[OF this, of pending] show ?thesis by (simp add: pending_def)
  qed
  have rm: "pending (remove_nth i running) < pending running"
    if "i < length running" for running :: "val chan list" and i
    using split[OF that] by (simp add: remove_nth_def pending_def)
  have upd: "pending (running[i := rest]) < pending running"
    if "i < length running" and "recv (running ! i) = Got v rest"
    for running :: "val chan list" and i v rest
  proof -
    obtain vs c where c: "running ! i = Chan vs c" by (cases "running ! i")
    with that(2) have "vs = v # items rest" by (cases vs) (auto split: if_splits)
    with c have "length (items rest) < length (items (running ! i))" by simp
    moreover have "running[i := rest] = take i running @ rest # drop (Suc i) running"
      using that(1) by (simp add: upd_conv_take_nth_drop)
    ultimately show ?thesis using split[OF that(1)] by (simp add: pending_def)
  qed
  show ?thesis
    by (relation "measure (\<lambda>(pick, d, k, running, wg). pending running)") (auto simp: rm upd)
qed

definition FanInChannel :: "(nat \<Rightarrow> nat) \<Rightarrow> cancel \<Rightarrow> val chan list \<Rightarrow> val chan" where
  "FanInChannel pick d channels = fanin_run pick d 0 channels (int (length channels))"

section \<open>TeeChannel\<close>

text \<open>
  The inner \<^verbatim>\<open>select\<close> of the worker has three cases; \<open>t k\<close> names the one that the
  scheduler favours at the \<open>k\<close>-th \<^verbatim>\<open>select\<close> of the worker.
\<close>

datatype tee_choice = TakeDone | TakeOut1 | TakeOut2

text \<open>
  \<open>o1\<close> and \<open>o2\<close> tell whether the shadowing variables \<^verbatim>\<open>out1\<close> and \<^verbatim>\<open>out2\<close> still hold
  their channel (they are set to nil after a send). A send on a nil channel never
  proceeds, so of the two sends the favoured one is taken if its channel is not nil,
  and the other one otherwise; with both nil and \<^verbatim>\<open>done\<close> not taken nothing can proceed.
\<close>

fun tee_select :: "tee_choice \<Rightarrow> bool \<Rightarrow> bool \<Rightarrow> tee_choice option" where
  "tee_select TakeDone o1 o2 = Some TakeDone"
| "tee_select TakeOut1 o1 o2 =
     (if o1 then Some TakeOut1 else if o2 then Some TakeOut2 else None)"
| "tee_select TakeOut2 o1 o2 =
     (if o2 then Some TakeOut2 else if o1 then Some TakeOut1 else None)"

text \<open>
  \<^verbatim>\<open>for i := 0; i < 2; i++ {
       select { case <-done:
                case out1<-val: out1 = nil
                case out2<-val: out2 = nil } }\<close>
  The result is the state of the two shadowing variables after the loop: an output
  received the value exactly when its variable has become nil.
\<close>

function tee_sends :: "(nat \<Rightarrow> tee_choice) \<Rightarrow> nat \<Rightarrow> nat \<Rightarrow> bool \<Rightarrow> bool \<Rightarrow> (bool \<times> bool) option" where
  "tee_sends t k i o1 o2 =
     (if i < 2 then
        (case tee_select (t k) o1 o2 of
           None \<Rightarrow> None
         | Some TakeDone \<Rightarrow> tee_sends t (Suc k) (i + 1) o1 o2
         | Some TakeOut1 \<Rightarrow> tee_sends t (Suc k) (i + 1) False o2
         | Some TakeOut2 \<Rightarrow> tee_sends t (Suc k) (i + 1) o1 False)
      else Some (o1, o2))"
  by pat_completeness auto
termination
  by (relation "measure (\<lambda>(t, k, i, o1, o2). 2 - i)") auto

text \<open>
  \<^verbatim>\<open>for val := range orDone(done, in) {
       var out1, out2 = out1, out2 // shadow vars on purpose
       for i := 0; i < 2; i++ { ... } }\<close>
  The result gives what was sent on each output and whether the worker returned.
\<close>

fun tee_range :: "(nat \<Rightarrow> tee_choice) \<Rightarrow> nat \<Rightarrow> val chan \<Rightarrow> val list \<times> val list \<times> bool" where
  "tee_range t k (Chan [] c) = ([], [], c)"
| "tee_range t k (Chan (v # vs) c) =
     (case tee_sends t k 0 True True of
        None \<Rightarrow> ([], [], False)
      | Some (o1, o2) \<Rightarrow>
          (let (sent1, sent2, returned) = tee_range t (k + 2) (Chan vs c)
           in (if o1 then sent1 else v # sent1, if o2 then sent2 else v # sent2, returned)))"

text \<open>
  \<^verbatim>\<open>defer func() { close(out1); close(out2) }()\<close>: the deferred function runs when the
  worker returns, and closes the channels of the outer variables, which the loop never
  sets to nil.
\<close>

fun tee_deferred :: "val list \<times> val list \<times> bool \<Rightarrow> val chan \<times> val chan" where
  "tee_deferred (sent1, sent2, returned) =
     (if returned then (Chan sent1 True, Chan sent2 True)
      else (Chan sent1 False, Chan sent2 False))"

text \<open>\<open>d\<close> is the cancellation as the relay \<^verbatim>\<open>orDone(done, in)\<close> sees it.\<close>

definition tee_worker :: "cancel \<Rightarrow> (nat \<Rightarrow> tee_choice) \<Rightarrow> val chan \<Rightarrow> val list \<times> val list \<times> bool" where
  "tee_worker d t inp = tee_range t 0 (OrDoneChannel d inp)"

definition TeeChannel :: "cancel \<Rightarrow> (nat \<Rightarrow> tee_choice) \<Rightarrow> val chan \<Rightarrow> val chan \<times> val chan" where
  "TeeChannel d t inp = tee_deferred (tee_worker d t inp)"

section \<open>BridgeChannel\<close>

text \<open>
  \<^verbatim>\<open>for val := range orDone(done, stream) {
       select { case valStream <- val:
                case <-done: } }\<close>
  The result gives the values sent, the number of \<^verbatim>\<open>select\<close>s executed so far and
  whether the \<^verbatim>\<open>range\<close> came to its end.
\<close>

fun bridge_range :: "cancel \<Rightarrow> nat \<Rightarrow> val chan \<Rightarrow> val list \<times> nat \<times> bool" where
  "bridge_range d k (Chan [] c) = ([], k, c)"
| "bridge_range d k (Chan (v # vs) c) =
     (let (out, k', ended) = bridge_range d (Suc k) (Chan vs c)
      in (if d k then out else v # out, k', ended))"

fun prepend :: "'a list \<Rightarrow> 'a chan \<Rightarrow> 'a chan" where
  "prepend out (Chan vs c) = Chan (out @ vs) c"

text \<open>
  \<^verbatim>\<open>for { var stream <-chan interface{}
         select { case maybeStream, ok := <-chanStream:
                    if ok == false { return }
                    stream = maybeStream
                  case <-done: return }
         for val := range orDone(done, stream) { ... } }\<close>
  with \<^verbatim>\<open>defer close(valStream)\<close>. \<open>d\<close> is the cancellation as the worker sees it and
  \<open>od j\<close> as the relay started for the \<open>j\<close>-th inner stream sees it.
\<close>

fun bridge_loop :: "cancel \<Rightarrow> (nat \<Rightarrow> cancel) \<Rightarrow> nat \<Rightarrow> nat \<Rightarrow> val chan chan \<Rightarrow> val chan" where
  "bridge_loop d od k j (Chan [] c) =
     (if d k then Chan [] True
      else if c then Chan [] True
      else Chan [] False)"
| "bridge_loop d od k j (Chan (stream # rest) c) =
     (if d k then Chan [] True
      else
        (let (out, k', ended) = bridge_range d (Suc k) (OrDoneChannel (od j) stream)
         in if ended then prepend out (bridge_loop d od k' (Suc j) (Chan rest c))
            else Chan out False))"

definition BridgeChannel :: "cancel \<Rightarrow> (nat \<Rightarrow> cancel) \<Rightarrow> val chan chan \<Rightarrow> val chan" where
  "BridgeChannel d od chanStream = bridge_loop d od 0 0 chanStream"

section \<open>The untyped package\<close>

text \<open>
  Package \<^verbatim>\<open>utils\<close> defines the combinators a second time, with \<^verbatim>\<open>RepeatValue\<close> and
  \<^verbatim>\<open>RepeatFn\<close> for \<^verbatim>\<open>RepeatValueChannel\<close> and \<^verbatim>\<open>RepeatFnChannel\<close>. The definitions
  below follow that package's own text, function by function, in the order of the
  sections above; the meaning of the channel operations is shared.
\<close>

subsection \<open>OrDoneChannel\<close>

fun utils_OrDone_loop :: "cancel \<Rightarrow> nat \<Rightarrow> 'a chan \<Rightarrow> 'a chan" where
  "utils_OrDone_loop d k (Chan [] c) =
     (if d k then Chan [] True
      else if c then Chan [] True
      else Chan [] False)"
| "utils_OrDone_loop d k (Chan (v # vs) c) =
     (if d k then Chan [] True
      else if d (Suc k) then utils_OrDone_loop d (Suc (Suc k)) (Chan vs c)
      else emit v (utils_OrDone_loop d (Suc (Suc k)) (Chan vs c)))"

definition utils_OrDoneChannel :: "cancel \<Rightarrow> 'a chan \<Rightarrow> 'a chan" where
  "utils_OrDoneChannel d c = utils_OrDone_loop d 0 c"

subsection \<open>TakeChannel\<close>

function utils_take_loop :: "cancel \<Rightarrow> nat \<Rightarrow> val chan \<Rightarrow> int \<Rightarrow> int \<Rightarrow> val chan" where
  "utils_take_loop d k valueStream i num =
     (if i < num then
        (case recv_val valueStream of
           None \<Rightarrow> Chan [] False
         | Some (v, rest) \<Rightarrow>
             if d k then Chan [] True
             else emit v (utils_take_loop d (Suc k) rest (i + 1) num))
      else Chan [] True)"
  by pat_completeness auto
termination
  by (relation "measure (\<lambda>(d, k, valueStream, i, num). nat (num - i))") auto

definition utils_TakeChannel :: "cancel \<Rightarrow> val chan \<Rightarrow> int \<Rightarrow> val chan" where
  "utils_TakeChannel d valueStream num = utils_take_loop d 0 valueStream 0 num"

subsection \<open>RepeatValue\<close>

fun utils_repeat_range :: "cancel \<Rightarrow> nat \<Rightarrow> val list \<Rightarrow> val list \<Rightarrow> bool \<times> nat \<times> val list" where
  "utils_repeat_range d k [] out = (False, k, out)"
| "utils_repeat_range d k (v # vs) out =
     (if d k then (True, k, out)
      else utils_repeat_range d (Suc k) vs (out @ [v]))"

partial_function (option) utils_repeat_for :: "cancel \<Rightarrow> nat \<Rightarrow> val list \<Rightarrow> val list \<Rightarrow> val chan option" where
  "utils_repeat_for d k values out =
     (let (returned, k', out') = utils_repeat_range d k values out
      in if returned then Some (Chan out' True)
         else utils_repeat_for d k' values out')"

definition RepeatValue :: "cancel \<Rightarrow> val list \<Rightarrow> val chan option" where
  "RepeatValue d values = utils_repeat_for d 0 values []"

subsection \<open>RepeatFn\<close>

partial_function (option) utils_repeatfn_for :: "cancel \<Rightarrow> nat \<Rightarrow> ('s \<Rightarrow> val \<times> 's) \<Rightarrow> 's \<Rightarrow> val list \<Rightarrow> val chan option" where
  "utils_repeatfn_for d k fn s out =
     (let (v, s') = fn s
      in if d k then Some (Chan out True)
         else utils_repeatfn_for d (Suc k) fn s' (out @ [v]))"

definition RepeatFn :: "cancel \<Rightarrow> ('s \<Rightarrow> val \<times> 's) \<Rightarrow> 's \<Rightarrow> val chan option" where
  "RepeatFn d fn s = utils_repeatfn_for d 0 fn s []"

subsection \<open>GeneratorToChannel\<close>

fun utils_generator_range :: "cancel \<Rightarrow> nat \<Rightarrow> val list \<Rightarrow> val chan" where
  "utils_generator_range d k [] = Chan [] True"
| "utils_generator_range d k (i # rest) =
     (if d k then Chan [] True
      else emit i (utils_generator_range d (Suc k) rest))"

definition utils_GeneratorToChannel :: "cancel \<Rightarrow> val list \<Rightarrow> val chan" where
  "utils_GeneratorToChannel d slice = utils_generator_range d 0 slice"

fun utils_string_generator_range :: "cancel \<Rightarrow> nat \<Rightarrow> string list \<Rightarrow> val chan" where
  "utils_string_generator_range d k [] = Chan [] True"
| "utils_string_generator_range d k (i # rest) =
     (if d k then Chan [] True
      else emit (StringV i) (utils_string_generator_range d (Suc k) rest))"

definition utils_GeneratorFromStringArrayToChannel :: "cancel \<Rightarrow> string list \<Rightarrow> val chan" where
  "utils_GeneratorFromStringArrayToChannel d slice = utils_string_generator_range d 0 slice"

subsection \<open>OrChannel\<close>

function utils_OrChannel :: "sigchan list \<Rightarrow> nat \<Rightarrow> sigchan \<times> or_worker list \<times> nat" where
  "utils_OrChannel channels fresh =
     (if length channels = 0 then (NilChan, [], fresh)
      else if length channels = 1 then (channels ! 0, [], fresh)
      else if length channels = 2 then
        (Ch fresh, [OrWorker [channels ! 0, channels ! 1] fresh], Suc fresh)
      else
        (let (rest, spawned, fresh') = utils_OrChannel (drop 3 channels @ [Ch fresh]) (Suc fresh)
         in (Ch fresh,
             OrWorker [channels ! 0, channels ! 1, channels ! 2, rest] fresh # spawned,
             fresh')))"
  by pat_completeness auto
termination
proof (relation "measure (\<lambda>(channels, fresh). length channels)")
  fix channels :: "sigchan list" and fresh :: nat
  assume "length channels \<noteq> 0" "length channels \<noteq> 1" "length channels \<noteq> 2"
  then have "3 \<le> length channels" by arith
  then have "length (drop 3 channels @ [Ch fresh]) < length channels" by simp
  then show "((drop 3 channels @ [Ch fresh], Suc fresh), channels, fresh)
      \<in> measure (\<lambda>(channels, fresh). length channels)" by simp
qed simp

subsection \<open>FanInChannel\<close>

function utils_fanin_run :: "(nat \<Rightarrow> nat) \<Rightarrow> cancel \<Rightarrow> nat \<Rightarrow> val chan list \<Rightarrow> int \<Rightarrow> val chan" where
  "utils_fanin_run pick d k running wg =
     (if wg = 0 then Chan [] True
      else if running = [] then Chan [] False
      else
        (let i = pick k mod length running
         in case recv (running ! i) of
              Closed \<Rightarrow> utils_fanin_run pick d (Suc k) (remove_nth i running) (wg - 1)
            | Blocks \<Rightarrow> utils_fanin_run pick d (Suc k) (remove_nth i running) wg
            | Got v rest \<Rightarrow>
                if d k then utils_fanin_run pick d (Suc k) (remove_nth i running) (wg - 1)
                else emit v (utils_fanin_run pick d (Suc k) (running[i := rest]) wg)))"
  by pat_completeness auto
termination
proof -
  have split: "pending running = pending (take i running) + Suc (length (items (running ! i)))
      + pending (drop (Suc i) running)" if "i < length running" for running :: "val chan list" and i
  proof -
    have "running = take i running @ running ! i # drop (Suc i) running"
      using that by (simp add: id_take_nth_drop)
    from arg_cong[OF this, of pending] show ?thesis by (simp add: pending_def)
  qed
  have rm: "pending (remove_nth i running) < pending running"
    if "i < length running" for running :: "val chan list" and i
    using split[OF that] by (simp add: remove_nth_def pending_def)
  have upd: "pending (running[i := rest]) < pending running"
    if "i < length running" and "recv (running ! i) = Got v rest"
    for running :: "val chan list" and i v rest
  proof -
    obtain vs c where c: "running ! i = Chan vs c" by (cases "running ! i")
    with that(2) have "vs = v # items rest" by (cases vs) (auto split: if_splits)
    with c have "length (items rest) < length (items (running ! i))" by simp
    moreover have "running[i := rest] = take i running @ rest # drop (Suc i) running"
      using that(1) by (simp add: upd_conv_take_nth_drop)
    ultimately show ?thesis using split[OF that(1)] by (simp add: pending_def)
  qed
  show ?thesis
    by (relation "measure (\<lambda>(pick, d, k, running, wg). pending running)") (auto simp: rm upd)
qed

definition utils_FanInChannel :: "(nat \<Rightarrow> nat) \<Rightarrow> cancel \<Rightarrow> val chan list \<Rightarrow> val chan" where
  "utils_FanInChannel pick d channels = utils_fanin_run pick d 0 channels (int (length channels))"

subsection \<open>TeeChannel\<close>

function utils_tee_sends :: "(nat \<Rightarrow> tee_choice) \<Rightarrow> nat \<Rightarrow> nat \<Rightarrow> bool \<Rightarrow> bool \<Rightarrow> (bool \<times> bool) option" where
  "utils_tee_sends t k i o1 o2 =
     (if i < 2 then
        (case tee_select (t k) o1 o2 of
           None \<Rightarrow> None
         | Some TakeDone \<Rightarrow> utils_tee_sends t (Suc k) (i + 1) o1 o2
         | Some TakeOut1 \<Rightarrow> utils_tee_sends t (Suc k) (i + 1) False o2
         | Some TakeOut2 \<Rightarrow> utils_tee_sends t (Suc k) (i + 1) o1 False)
      else Some (o1, o2))"
  by pat_completeness auto
termination
  by (relation "measure (\<lambda>(t, k, i, o1, o2). 2 - i)") auto

fun utils_tee_range :: "(nat \<Rightarrow> tee_choice) \<Rightarrow> nat \<Rightarrow> val chan \<Rightarrow> val list \<times> val list \<times> bool" where
  "utils_tee_range t k (Chan [] c) = ([], [], c)"
| "utils_tee_range t k (Chan (v # vs) c) =
     (case utils_tee_sends t k 0 True True of
        None \<Rightarrow> ([], [], False)
      | Some (o1, o2) \<Rightarrow>
          (let (sent1, sent2, returned) = utils_tee_range t (k + 2) (Chan vs c)
           in (if o1 then sent1 else v # sent1, if o2 then sent2 else v # sent2, returned)))"

fun utils_tee_deferred :: "val list \<times> val list \<times> bool \<Rightarrow> val chan \<times> val chan" where
  "utils_tee_deferred (sent1, sent2, returned) =
     (if returned then (Chan sent1 True, Chan sent2 True)
      else (Chan sent1 False, Chan sent2 False))"

definition utils_tee_worker :: "cancel \<Rightarrow> (nat \<Rightarrow> tee_choice) \<Rightarrow> val chan \<Rightarrow> val list \<times> val list \<times> bool" where
  "utils_tee_worker d t inp = utils_tee_range t 0 (utils_OrDoneChannel d inp)"

definition utils_TeeChannel :: "cancel \<Rightarrow> (nat \<Rightarrow> tee_choice) \<Rightarrow> val chan \<Rightarrow> val chan \<times> val chan" where
  "utils_TeeChannel d t inp = utils_tee_deferred (utils_tee_worker d t inp)"

subsection \<open>BridgeChannel\<close>

fun utils_bridge_range :: "cancel \<Rightarrow> nat \<Rightarrow> val chan \<Rightarrow> val list \<times> nat \<times> bool" where
  "utils_bridge_range d k (Chan [] c) = ([], k, c)"
| "utils_bridge_range d k (Chan (v # vs) c) =
     (let (out, k', ended) = utils_bridge_range d (Suc k) (Chan vs c)
      in (if d k then out else v # out, k', ended))"

fun utils_bridge_loop :: "cancel \<Rightarrow> (nat \<Rightarrow> cancel) \<Rightarrow> nat \<Rightarrow> nat \<Rightarrow> val chan chan \<Rightarrow> val chan" where
  "utils_bridge_loop d od k j (Chan [] c) =
     (if d k then Chan [] True
      else if c then Chan [] True
      else Chan [] False)"
| "utils_bridge_loop d od k j (Chan (stream # rest) c) =
     (if d k then Chan [] True
      else
        (let (out, k', ended) = utils_bridge_range d (Suc k) (utils_OrDoneChannel (od j) stream)
         in if ended then prepend out (utils_bridge_loop d od k' (Suc j) (Chan rest c))
            else Chan out False))"

definition utils_BridgeChannel :: "cancel \<Rightarrow> (nat \<Rightarrow> cancel) \<Rightarrow> val chan chan \<Rightarrow> val chan" where
  "utils_BridgeChannel d od chanStream = utils_bridge_loop d od 0 0 chanStream"

section \<open>Notions used to state the properties\<close>

text \<open>The first \<open>n\<close> values of the endless round-robin repetition of a non-empty list.\<close>

definition round_robin :: "val list \<Rightarrow> nat \<Rightarrow> val list" where
  "round_robin vs n = map (\<lambda>i. vs ! (i mod length vs)) [0..<n]"

text \<open>Whether the worker started by \<^verbatim>\<open>TeeChannel\<close> returns.\<close>

definition tee_worker_returns :: "cancel \<Rightarrow> (nat \<Rightarrow> tee_choice) \<Rightarrow> val chan \<Rightarrow> bool" where
  "tee_worker_returns d t inp = (case tee_worker d t inp of (sent1, sent2, returned) \<Rightarrow> returned)"

section \<open>Simplification setup and basic facts\<close>

text \<open>
  The equations of the loops defined by general recursion rewrite a call into a term
  that contains a call again, so they are unfolded by hand.
\<close>

declare take_loop.simps [simp del] fanin_run.simps [simp del]
  OrChannel.simps [simp del] tee_sends.simps [simp del]
  utils_take_loop.simps [simp del] utils_fanin_run.simps [simp del]
  utils_OrChannel.simps [simp del] utils_tee_sends.simps [simp del]

lemma items_emit: "items (emit v ch) = v # items ch"
  by (cases ch) simp

lemma closed_emit: "closed (emit v ch) = closed ch"
  by (cases ch) simp

text \<open>Without cancellation the relay hands on exactly what it receives.\<close>

lemma OrDone_loop_never: "OrDone_loop never k (Chan xs c) = Chan xs c"
  by (induction xs arbitrary: k) (simp_all add: never_def)

lemma OrDoneChannel_never: "OrDoneChannel never ch = ch"
  by (cases ch) (simp add: OrDoneChannel_def OrDone_loop_never)

lemma OrDone_loop_closed: "c \<Longrightarrow> closed (OrDone_loop d k (Chan xs c))"
  by (induction xs arbitrary: k) (simp_all add: closed_emit)

lemma OrDoneChannel_done_first: "d 0 \<Longrightarrow> closed (OrDoneChannel d inp)"
proof -
  assume "d 0"
  obtain xs c where "inp = Chan xs c" by (cases inp)
  with \<open>d 0\<close> show ?thesis by (cases xs) (simp_all add: OrDoneChannel_def)
qed

section \<open>The two packages agree\<close>

lemma utils_OrDone_loop_eq: "utils_OrDone_loop d k ch = OrDone_loop d k ch"
  by (induction d k ch rule: OrDone_loop.induct) simp_all

lemma utils_OrDoneChannel_eq: "utils_OrDoneChannel d ch = OrDoneChannel d ch"
  by (simp add: utils_OrDoneChannel_def OrDoneChannel_def utils_OrDone_loop_eq)

lemma utils_take_loop_eq: "utils_take_loop d k src i num = take_loop d k src i num"
proof (induction d k src i num rule: take_loop.induct)
  case (1 d k valueStream i num)
  show ?case
    by (subst utils_take_loop.simps, subst take_loop.simps) (simp add: 1 split: option.splits)
qed

lemma utils_repeat_range_eq: "utils_repeat_range d k vs out = repeat_range d k vs out"
  by (induction d k vs out rule: repeat_range.induct) simp_all

text \<open>
  For the loops without exit, each of the two workers returns whenever the other does,
  with the same result; so they also fail to return together.
\<close>

lemma utils_repeat_for_Some:
  assumes "utils_repeat_for d k vs out = Some r"
  shows "repeat_for d k vs out = Some r"
proof (rule utils_repeat_for.raw_induct[where P = "\<lambda>d k vs out r. repeat_for d k vs out = Some r", OF _ assms])
  fix rf :: "cancel \<Rightarrow> nat \<Rightarrow> val list \<Rightarrow> val list \<Rightarrow> val chan option"
  fix d k vs out r
  assume IH: "\<And>d k vs out r. rf d k vs out = Some r \<Longrightarrow> repeat_for d k vs out = Some r"
    and body: "(let (returned, k', out') = utils_repeat_range d k vs out
                in if returned then Some (Chan out' True) else rf d k' vs out') = Some r"
  show "repeat_for d k vs out = Some r"
    using body
    by (subst repeat_for.simps) (auto simp: utils_repeat_range_eq split: prod.splits if_splits dest: IH)
qed

lemma repeat_for_Some:
  assumes "repeat_for d k vs out = Some r"
  shows "utils_repeat_for d k vs out = Some r"
proof (rule repeat_for.raw_induct[where P = "\<lambda>d k vs out r. utils_repeat_for d k vs out = Some r", OF _ assms])
  fix rf :: "cancel \<Rightarrow> nat \<Rightarrow> val list \<Rightarrow> val list \<Rightarrow> val chan option"
  fix d k vs out r
  assume IH: "\<And>d k vs out r. rf d k vs out = Some r \<Longrightarrow> utils_repeat_for d k vs out = Some r"
    and body: "(let (returned, k', out') = repeat_range d k vs out
                in if returned then Some (Chan out' True) else rf d k' vs out') = Some r"
  show "utils_repeat_for d k vs out = Some r"
    using body
    by (subst utils_repeat_for.simps) (auto simp: utils_repeat_range_eq split: prod.splits if_splits dest: IH)
qed

lemma utils_repeat_for_eq: "utils_repeat_for d k vs out = repeat_for d k vs out"
proof (cases "utils_repeat_for d k vs out")
  case (Some r)
  then show ?thesis by (simp add: utils_repeat_for_Some)
next
  case None
  then show ?thesis by (cases "repeat_for d k vs out") (auto dest: repeat_for_Some)
qed

lemma utils_repeatfn_for_Some:
  assumes "utils_repeatfn_for d k fn s out = Some r"
  shows "repeatfn_for d k fn s out = Some r"
proof (rule utils_repeatfn_for.raw_induct[where P = "\<lambda>d k fn s out r. repeatfn_for d k fn s out = Some r", OF _ assms])
  fix rf :: "cancel \<Rightarrow> nat \<Rightarrow> ('s \<Rightarrow> val \<times> 's) \<Rightarrow> 's \<Rightarrow> val list \<Rightarrow> val chan option"
  fix d k and fn :: "'s \<Rightarrow> val \<times> 's" and s out r
  assume IH: "\<And>d k fn s out r. rf d k fn s out = Some r \<Longrightarrow> repeatfn_for d k fn s out = Some r"
    and body: "(let (v, s') = fn s
                in if d k then Some (Chan out True) else rf d (Suc k) fn s' (out @ [v])) = Some r"
  show "repeatfn_for d k fn s out = Some r"
    using body
    by (subst repeatfn_for.simps) (auto split: prod.splits if_splits dest: IH)
qed

lemma repeatfn_for_Some:
  assumes "repeatfn_for d k fn s out = Some r"
  shows "utils_repeatfn_for d k fn s out = Some r"
proof (rule repeatfn_for.raw_induct[where P = "\<lambda>d k fn s out r. utils_repeatfn_for d k fn s out = Some r", OF _ assms])
  fix rf :: "cancel \<Rightarrow> nat \<Rightarrow> ('s \<Rightarrow> val \<times> 's) \<Rightarrow> 's \<Rightarrow> val list \<Rightarrow> val chan option"
  fix d k and fn :: "'s \<Rightarrow> val \<times> 's" and s out r
  assume IH: "\<And>d k fn s out r. rf d k fn s out = Some r \<Longrightarrow> utils_repeatfn_for d k fn s out = Some r"
    and body: "(let (v, s') = fn s
                in if d k then Some (Chan out True) else rf d (Suc k) fn s' (out @ [v])) = Some r"
  show "utils_repeatfn_for d k fn s out = Some r"
    using body
    by (subst utils_repeatfn_for.simps) (auto split: prod.splits if_splits dest: IH)
qed

lemma utils_repeatfn_for_eq: "utils_repeatfn_for d k fn s out = repeatfn_for d k fn s out"
proof (cases "utils_repeatfn_for d k fn s out")
  case (Some r)
  then show ?thesis by (simp add: utils_repeatfn_for_Some)
next
  case None
  then show ?thesis by (cases "repeatfn_for d k fn s out") (auto dest: repeatfn_for_Some)
qed

lemma utils_generator_range_eq: "utils_generator_range d k xs = generator_range d k xs"
  by (induction d k xs rule: generator_range.induct) simp_all

lemma utils_string_generator_range_eq:
  "utils_string_generator_range d k xs = string_generator_range d k xs"
  by (induction d k xs rule: string_generator_range.induct) simp_all

lemma utils_OrChannel_eq: "utils_OrChannel channels fresh = OrChannel channels fresh"
proof (induction channels fresh rule: OrChannel.induct)
  case (1 channels fresh)
  show ?case
    by (subst utils_OrChannel.simps, subst OrChannel.simps) (simp add: 1)
qed

lemma utils_fanin_run_eq: "utils_fanin_run pick d k running wg = fanin_run pick d k running wg"
proof (induction pick d k running wg rule: fanin_run.induct)
  case (1 pick d k running wg)
  show ?case
    by (subst utils_fanin_run.simps, subst fanin_run.simps)
       (simp add: 1 Let_def split: received.splits)
qed

lemma utils_tee_sends_eq: "utils_tee_sends t k i o1 o2 = tee_sends t k i o1 o2"
proof (induction t k i o1 o2 rule: tee_sends.induct)
  case (1 t k i o1 o2)
  show ?case
    using 1
    by (subst utils_tee_sends.simps, subst tee_sends.simps)
       (auto split: option.splits tee_choice.splits)
qed

lemma utils_tee_range_eq: "utils_tee_range t k ch = tee_range t k ch"
  by (induction t k ch rule: tee_range.induct) (simp_all add: utils_tee_sends_eq split: option.splits)

lemma utils_tee_deferred_eq: "utils_tee_deferred r = tee_deferred r"
  by (cases r rule: tee_deferred.cases) simp

lemma utils_bridge_range_eq: "utils_bridge_range d k ch = bridge_range d k ch"
  by (induction d k ch rule: bridge_range.induct) simp_all

lemma utils_bridge_loop_eq: "utils_bridge_loop d od k j cs = bridge_loop d od k j cs"
  by (induction d od k j cs rule: bridge_loop.induct)
     (simp_all add: utils_bridge_range_eq utils_OrDoneChannel_eq split: prod.splits)

text \<open>
  C9. Every combinator that both packages define (Or, RepeatValue, RepeatFn, Take, OrDone,
  FanIn, Tee, Bridge and the generators) behaves the same in both: given the same
  cancellation behaviour, the same scheduling and the same inputs, the two
  implementations produce the same output streams.
\<close>

theorem packages_agree:
  "utils_OrChannel = OrChannel \<and>
   RepeatValue = RepeatValueChannel \<and>
   (RepeatFn :: cancel \<Rightarrow> ('s \<Rightarrow> val \<times> 's) \<Rightarrow> 's \<Rightarrow> val chan option) = RepeatFnChannel \<and>
   utils_TakeChannel = TakeChannel \<and>
   (utils_OrDoneChannel :: cancel \<Rightarrow> 'a chan \<Rightarrow> 'a chan) = OrDoneChannel \<and>
   utils_FanInChannel = FanInChannel \<and>
   utils_TeeChannel = TeeChannel \<and>
   utils_BridgeChannel = BridgeChannel \<and>
   utils_GeneratorToChannel = GeneratorToChannel \<and>
   utils_GeneratorFromStringArrayToChannel = GeneratorFromStringArrayToChannel"
proof -
  have "utils_OrChannel = OrChannel" by (intro ext) (rule utils_OrChannel_eq)
  moreover have "RepeatValue = RepeatValueChannel"
    by (intro ext) (simp add: RepeatValue_def RepeatValueChannel_def utils_repeat_for_eq)
  moreover have "(RepeatFn :: cancel \<Rightarrow> ('s \<Rightarrow> val \<times> 's) \<Rightarrow> 's \<Rightarrow> val chan option) = RepeatFnChannel"
    by (intro ext) (simp add: RepeatFn_def RepeatFnChannel_def utils_repeatfn_for_eq)
  moreover have "utils_TakeChannel = TakeChannel"
    by (intro ext) (simp add: utils_TakeChannel_def TakeChannel_def utils_take_loop_eq)
  moreover have "(utils_OrDoneChannel :: cancel \<Rightarrow> 'a chan \<Rightarrow> 'a chan) = OrDoneChannel"
    by (intro ext) (rule utils_OrDoneChannel_eq)
  moreover have "utils_FanInChannel = FanInChannel"
    by (intro ext) (simp add: utils_FanInChannel_def FanInChannel_def utils_fanin_run_eq)
  moreover have "utils_TeeChannel = TeeChannel"
    by (intro ext) (simp add: utils_TeeChannel_def TeeChannel_def utils_tee_worker_def tee_worker_def
        utils_tee_range_eq utils_tee_deferred_eq utils_OrDoneChannel_eq)
  moreover have "utils_BridgeChannel = BridgeChannel"
    by (intro ext) (simp add: utils_BridgeChannel_def BridgeChannel_def utils_bridge_loop_eq)
  moreover have "utils_GeneratorToChannel = GeneratorToChannel"
    by (intro ext) (simp add: utils_GeneratorToChannel_def GeneratorToChannel_def utils_generator_range_eq)
  moreover have "utils_GeneratorFromStringArrayToChannel = GeneratorFromStringArrayToChannel"
    by (intro ext) (simp add: utils_GeneratorFromStringArrayToChannel_def
        GeneratorFromStringArrayToChannel_def utils_string_generator_range_eq)
  ultimately show ?thesis by blast
qed

section \<open>Properties of TakeChannel\<close>

lemma TakeChannel_zero: "TakeChannel d src 0 = Chan [] True"
  by (simp add: TakeChannel_def take_loop.simps)

lemma TakeChannel_negative: "num < 0 \<Longrightarrow> TakeChannel d src num = Chan [] True"
  by (simp add: TakeChannel_def take_loop.simps)

lemma take_loop_never:
  "n = nat (num - i) \<Longrightarrow> i \<le> num \<Longrightarrow> n \<le> length xs \<Longrightarrow>
   take_loop never k (Chan xs c) i num = Chan (take n xs) True"
proof (induction n arbitrary: i xs k)
  case 0
  then have "\<not> i < num" by simp
  then show ?case by (simp add: take_loop.simps)
next
  case (Suc n)
  then obtain v vs where xs: "xs = v # vs" by (cases xs) auto
  have lt: "i < num" using Suc.prems by linarith
  have "take_loop never (Suc k) (Chan vs c) (i + 1) num = Chan (take n vs) True"
    using Suc.prems xs by (intro Suc.IH) auto
  then show ?case using lt xs
    by (subst take_loop.simps) (simp add: never_def)
qed

text \<open>
  Where the source supplies at least K elements and nothing is cancelled, Take yields
  exactly the first K of them, in order, and closes.
\<close>

lemma TakeChannel_first_K:
  "0 \<le> K \<Longrightarrow> nat K \<le> length xs \<Longrightarrow> TakeChannel never (Chan xs c) K = Chan (take (nat K) xs) True"
  unfolding TakeChannel_def by (rule take_loop_never) auto

text \<open>
  While the source stays open without a value, the worker waits in the receive, outside
  the \<^verbatim>\<open>select\<close>: it does not observe the cancellation and never closes its output.
\<close>

lemma TakeChannel_idle_source: "0 < num \<Longrightarrow> TakeChannel d (Chan [] False) num = Chan [] False"
  by (simp add: TakeChannel_def take_loop.simps)

text \<open>
  C1. The claim says that when the source closes after fewer than K elements, the output
  of Take closes after those elements with nothing further emitted. The code, taking
  3 elements without cancellation from a source that delivers the single value 1 and
  closes, emits 1 followed by two nil values before it closes its output.
\<close>

theorem TakeChannel_closed_source_pads_nil:
  "TakeChannel never (Chan [IntV 1] True) 3 = Chan [IntV 1, NilV, NilV] True"
  by (simp add: TakeChannel_def take_loop.simps never_def)

section \<open>Properties of RepeatValue\<close>

lemma repeat_for_returns:
  assumes "repeat_for d k vals out = Some r"
  shows "vals \<noteq> []"
proof (rule repeat_for.raw_induct[where P = "\<lambda>d k vs out r. vs \<noteq> []", OF _ assms])
  fix rf :: "cancel \<Rightarrow> nat \<Rightarrow> val list \<Rightarrow> val list \<Rightarrow> val chan option"
  fix d k vs out r
  assume IH: "\<And>d k vs out r. rf d k vs out = Some r \<Longrightarrow> vs \<noteq> []"
    and body: "(let (returned, k', out') = repeat_range d k vs out
                in if returned then Some (Chan out' True) else rf d k' vs out') = Some r"
  show "vs \<noteq> []"
  proof
    assume "vs = []"
    with body have "rf d k [] out = Some r" by simp
    from IH[OF this] show False by simp
  qed
qed

lemma repeat_range_run:
  "\<forall>j<length vs. \<not> d (k + j) \<Longrightarrow> repeat_range d k vs out = (False, k + length vs, out @ vs)"
proof (induction vs arbitrary: k out)
  case Nil
  show ?case by simp
next
  case (Cons v vs)
  have "\<not> d k" using Cons.prems by force
  moreover have "\<forall>j<length vs. \<not> d (Suc k + j)" using Cons.prems by force
  ultimately show ?case using Cons.IH[of "Suc k" "out @ [v]"] by simp
qed

lemma repeat_range_stop:
  "j < length vs \<Longrightarrow> d (k + j) \<Longrightarrow> \<forall>i<j. \<not> d (k + i) \<Longrightarrow>
   repeat_range d k vs out = (True, k + j, out @ take j vs)"
proof (induction vs arbitrary: k j out)
  case Nil
  then show ?case by simp
next
  case (Cons v vs)
  show ?case
  proof (cases j)
    case 0
    with Cons.prems show ?thesis by simp
  next
    case (Suc j')
    have "\<not> d k" using Cons.prems(3) Suc by force
    moreover have "\<forall>i<j'. \<not> d (Suc k + i)" using Cons.prems(3) Suc by force
    moreover have "j' < length vs" "d (Suc k + j')" using Cons.prems Suc by auto
    ultimately show ?thesis using Cons.IH[of j' "Suc k" "out @ [v]"] Suc by simp
  qed
qed

lemma round_robin_add:
  assumes "j \<le> length vs"
  shows "round_robin vs (q * length vs + j) = round_robin vs (q * length vs) @ take j vs"
proof -
  have "[0..<q * length vs + j] = [0..<q * length vs] @ map (\<lambda>i. i + q * length vs) [0..<j]"
    using upt_add_eq_append[of 0 "q * length vs" j] map_add_upt[of "q * length vs" j]
    by (simp add: add.commute)
  moreover have "map (\<lambda>i. vs ! ((i + q * length vs) mod length vs)) [0..<j] = take j vs"
    using assms by (intro nth_equalityI) auto
  ultimately show ?thesis by (simp add: round_robin_def comp_def)
qed

lemma repeat_for_round_robin:
  assumes "vs \<noteq> []" and "d n" and "\<forall>j<n. \<not> d j"
  shows "k = q * length vs \<Longrightarrow> k \<le> n \<Longrightarrow>
         repeat_for d k vs (round_robin vs k) = Some (Chan (round_robin vs n) True)"
proof (induction "n - k" arbitrary: k q rule: less_induct)
  case less
  show ?case
  proof (cases "n < k + length vs")
    case True
    define j where "j = n - k"
    have j: "j < length vs" "n = k + j" using True less.prems by (auto simp: j_def)
    have "repeat_range d k vs (round_robin vs k) = (True, k + j, round_robin vs k @ take j vs)"
      using j assms by (intro repeat_range_stop) auto
    moreover have "round_robin vs n = round_robin vs k @ take j vs"
      using j less.prems(1) round_robin_add[of j vs q] by simp
    ultimately show ?thesis by (subst repeat_for.simps) simp
  next
    case False
    have "repeat_range d k vs (round_robin vs k) = (False, k + length vs, round_robin vs k @ vs)"
      using False assms(3) by (intro repeat_range_run) auto
    moreover have "round_robin vs (k + length vs) = round_robin vs k @ vs"
      using less.prems(1) round_robin_add[of "length vs" vs q] by simp
    moreover have "repeat_for d (k + length vs) vs (round_robin vs (k + length vs))
        = Some (Chan (round_robin vs n) True)"
    proof (rule less.hyps[of _ "Suc q"])
      have "0 < length vs" using assms(1) by simp
      then show "n - (k + length vs) < n - k" using False by linarith
      show "k + length vs = Suc q * length vs" using less.prems(1) by simp
      show "k + length vs \<le> n" using False by simp
    qed
    ultimately show ?thesis by (subst repeat_for.simps) simp
  qed
qed

text \<open>
  For a non-empty list the worker sends the values round-robin, in list order, and
  returns at the first \<^verbatim>\<open>select\<close> that takes \<^verbatim>\<open>done\<close>: if that is the \<open>n\<close>-th one
  (counting from 0), exactly the first \<open>n\<close> values of the repetition have been sent.
\<close>

lemma RepeatValueChannel_round_robin:
  assumes "vs \<noteq> []" and "d n" and "\<forall>j<n. \<not> d j"
  shows "RepeatValueChannel d vs = Some (Chan (round_robin vs n) True)"
  using repeat_for_round_robin[OF assms, of 0 0] by (simp add: RepeatValueChannel_def round_robin_def)

text \<open>The worker returns only if some \<^verbatim>\<open>select\<close> takes \<^verbatim>\<open>done\<close>.\<close>

lemma repeat_for_cancelled:
  assumes "repeat_for d k vs out = Some r"
  shows "\<exists>n. d n"
proof (rule repeat_for.raw_induct[where P = "\<lambda>d k vs out r. \<exists>n. d n", OF _ assms])
  fix rf :: "cancel \<Rightarrow> nat \<Rightarrow> val list \<Rightarrow> val list \<Rightarrow> val chan option"
  fix d k vs out r
  assume IH: "\<And>d k vs out r. rf d k vs out = Some r \<Longrightarrow> \<exists>n. d n"
    and body: "(let (returned, k', out') = repeat_range d k vs out
                in if returned then Some (Chan out' True) else rf d k' vs out') = Some r"
  have stop: "fst (repeat_range d k vs out) \<Longrightarrow> \<exists>n. d n" for k out
    by (induction vs arbitrary: k out) (auto split: if_splits)
  show "\<exists>n. d n"
  proof (cases "fst (repeat_range d k vs out)")
    case True
    then show ?thesis by (rule stop)
  next
    case False
    with body obtain k' out' where "rf d k' vs out' = Some r"
      by (auto split: prod.splits if_splits)
    then show ?thesis by (rule IH)
  qed
qed

text \<open>
  C2. The claim says that for an empty list RepeatValue closes its output stream at once
  with zero emissions. The code never gets there: with no values the inner \<^verbatim>\<open>range\<close>
  has nothing to do, the outer \<^verbatim>\<open>for\<close> has no exit, and the worker never reaches a
  \<^verbatim>\<open>select\<close>; whatever the cancellation signal does, it never returns and never
  closes its output. This holds for \<^verbatim>\<open>RepeatValue\<close> and for \<^verbatim>\<open>RepeatValueChannel\<close>.
\<close>

theorem RepeatValue_empty_never_returns:
  "RepeatValue d [] = None \<and> RepeatValueChannel d [] = None"
proof -
  have "repeat_for d 0 [] [] = None"
  proof (cases "repeat_for d 0 [] []")
    case None
    then show ?thesis .
  next
    case (Some r)
    then have "([]::val list) \<noteq> []" by (rule repeat_for_returns)
    then show ?thesis by simp
  qed
  then show ?thesis
    by (simp add: RepeatValue_def RepeatValueChannel_def utils_repeat_for_eq)
qed

section \<open>Misuse: negative counts and capacities\<close>

lemma buffer_range_never: "buffer_range never k (Chan xs c) = Chan xs c"
  by (induction xs arbitrary: k) (simp_all add: never_def)

lemma throttle_range_never:
  "0 < cap \<Longrightarrow> throttle_range never k cap 0 (Chan xs c) = Chan xs c"
  by (induction xs arbitrary: k) (simp_all add: never_def)

text \<open>
  C3, as the claim states it: a negative Take count and a non-positive Buffer or
  Throttle capacity are rejected at call time. The code has no such check. With a
  capacity of 0 neither Buffer nor Throttle is rejected: the channel is allocated and the
  worker started, and Buffer relays the source. Take with count -1 is not rejected
  either: it returns a stream that closes at once. (The runtime's limit is set to
  17592186044410 here; any other limit gives the same.)
\<close>

theorem misuse_not_rejected:
  "\<not> isl (BufferChannel 17592186044410 never never (Chan [IntV 1, IntV 2] True) 0) \<and>
   BufferChannel 17592186044410 never never (Chan [IntV 1, IntV 2] True) 0
     = Inr (Chan [IntV 1, IntV 2] True) \<and>
   \<not> isl (ThrottleChannel 17592186044410 never never (Chan [IntV 1, IntV 2] True) 0) \<and>
   TakeChannel never (Chan [IntV 1, IntV 2] True) (- 1) = Chan [] True"
  by (simp add: BufferChannel_def ThrottleChannel_def OrDoneChannel_def TakeChannel_def
      take_loop.simps never_def)

text \<open>
  C3, amended. A Buffer or Throttle capacity is rejected at call time exactly when it is
  negative or beyond the runtime's limit for the size of a channel: then the allocation
  of the channel panics in the caller, before any worker is started. Every other
  capacity, 0 included, is accepted by both. A negative Take count is accepted and,
  whatever the cancellation signal does, gives an output that closes at once with no
  emissions, as a count of 0 does. Without cancellation, Buffer with an accepted
  capacity, 0 included, relays the source unchanged and in order.
\<close>

theorem misuse_at_call_time:
  "(num < 0 \<longrightarrow> TakeChannel d src num = Chan [] True \<and> TakeChannel d src 0 = Chan [] True) \<and>
   isl (BufferChannel maxcap d od src limit) = (limit < 0 \<or> int maxcap < limit) \<and>
   isl (ThrottleChannel maxcap d od src limit) = (limit < 0 \<or> int maxcap < limit) \<and>
   (limit < 0 \<or> int maxcap < limit \<longrightarrow>
      BufferChannel maxcap d od src limit = Inl MakechanSizeOutOfRange \<and>
      ThrottleChannel maxcap d od src limit = Inl MakechanSizeOutOfRange) \<and>
   (0 \<le> cap \<and> cap \<le> int maxcap \<longrightarrow> BufferChannel maxcap never never src cap = Inr src)"
proof -
  have "TakeChannel d src num = Chan [] True" if "num < 0"
    using that by (rule TakeChannel_negative)
  moreover have "TakeChannel d src 0 = Chan [] True"
    by (rule TakeChannel_zero)
  moreover have "isl (BufferChannel maxcap d od src limit) = (limit < 0 \<or> int maxcap < limit)"
    by (simp add: BufferChannel_def)
  moreover have "isl (ThrottleChannel maxcap d od src limit) = (limit < 0 \<or> int maxcap < limit)"
    by (simp add: ThrottleChannel_def)
  moreover have "BufferChannel maxcap d od src limit = Inl MakechanSizeOutOfRange"
    and "ThrottleChannel maxcap d od src limit = Inl MakechanSizeOutOfRange"
    if "limit < 0 \<or> int maxcap < limit"
    using that by (auto simp: BufferChannel_def ThrottleChannel_def)
  moreover have "BufferChannel maxcap never never src cap = Inr src"
    if "0 \<le> cap \<and> cap \<le> int maxcap"
    using that by (cases src) (simp add: BufferChannel_def OrDoneChannel_never buffer_range_never)
  ultimately show ?thesis by blast
qed

text \<open>
  At a limit of 17592186044410: the count -1 for Take, the capacities -1 and \<open>2 ^ 62\<close>
  (rejected) and the capacities 0 and 4 (accepted).
\<close>

theorem misuse_at_call_time_witness:
  "TakeChannel never (Chan [IntV 1, IntV 2] True) (- 1) = Chan [] True \<and>
   BufferChannel 17592186044410 never never (Chan [IntV 1, IntV 2] True) (- 1)
     = Inl MakechanSizeOutOfRange \<and>
   ThrottleChannel 17592186044410 never never (Chan [IntV 1, IntV 2] True) (- 1)
     = Inl MakechanSizeOutOfRange \<and>
   BufferChannel 17592186044410 never never (Chan [IntV 1, IntV 2] True) 4611686018427387904
     = Inl MakechanSizeOutOfRange \<and>
   ThrottleChannel 17592186044410 never never (Chan [IntV 1, IntV 2] True) 4611686018427387904
     = Inl MakechanSizeOutOfRange \<and>
   \<not> isl (ThrottleChannel 17592186044410 never never (Chan [IntV 1, IntV 2] True) 0) \<and>
   BufferChannel 17592186044410 never never (Chan [IntV 1, IntV 2] True) 0
     = Inr (Chan [IntV 1, IntV 2] True) \<and>
   BufferChannel 17592186044410 never never (Chan [IntV 1, IntV 2] True) 4
     = Inr (Chan [IntV 1, IntV 2] True)"
  using
    misuse_at_call_time[where num = "- 1" and d = never and od = never
      and src = "Chan [IntV 1, IntV 2] True" and maxcap = 17592186044410
      and limit = "- 1" and cap = 0]
    misuse_at_call_time[where num = "- 1" and d = never and od = never
      and src = "Chan [IntV 1, IntV 2] True" and maxcap = 17592186044410
      and limit = 4611686018427387904 and cap = 4]
    misuse_at_call_time[where num = "- 1" and d = never and od = never
      and src = "Chan [IntV 1, IntV 2] True" and maxcap = 17592186044410
      and limit = 0 and cap = 0]
  by simp

text \<open>
  What Throttle delivers once it is accepted: with a capacity of 0 the worker never gets
  past its first token, so nothing is delivered and the output is never closed; with a
  positive capacity and no cancellation it relays the source unchanged.
\<close>

lemma ThrottleChannel_zero_stalls:
  "ThrottleChannel maxcap never never (Chan (v # vs) c) 0 = Inr (Chan [] False)"
  by (simp add: ThrottleChannel_def OrDoneChannel_never)

lemma ThrottleChannel_positive_relays:
  "0 < cap \<Longrightarrow> cap \<le> int maxcap \<Longrightarrow> ThrottleChannel maxcap never never src cap = Inr src"
  by (cases src) (simp add: ThrottleChannel_def OrDoneChannel_never throttle_range_never)

section \<open>Properties of BridgeChannel\<close>

lemma bridge_range_never: "bridge_range never k (Chan xs c) = (xs, k + length xs, c)"
  by (induction xs arbitrary: k) (simp_all add: never_def)

lemma bridge_loop_never:
  "bridge_loop never (\<lambda>j. never) k j (Chan (map (\<lambda>xs. Chan xs True) xss) c) = Chan (concat xss) c"
proof (induction xss arbitrary: k j)
  case Nil
  show ?case by (simp add: never_def)
next
  case (Cons xs xss)
  have "\<not> never k" by (simp add: never_def)
  then show ?case
    by (simp add: OrDoneChannel_never bridge_range_never Cons.IH)
qed

text \<open>
  C4. Without cancellation, for an outer stream that delivers K finite inner streams,
  the output of Bridge is exactly the concatenation of the inner streams' elements, in
  the order in which the outer stream delivered the inner streams and with each inner
  stream's own order kept; the output closes when the outer stream does. In particular
  ten inner streams of one element each, carrying 0 to 9, give exactly 0, 1, ..., 9.
\<close>

theorem BridgeChannel_concat:
  "BridgeChannel never (\<lambda>j. never) (Chan (map (\<lambda>xs. Chan xs True) xss) c) = Chan (concat xss) c \<and>
   BridgeChannel never (\<lambda>j. never)
       (Chan (map (\<lambda>i. Chan [IntV i] True) [0, 1, 2, 3, 4, 5, 6, 7, 8, 9]) True)
     = Chan (map IntV [0, 1, 2, 3, 4, 5, 6, 7, 8, 9]) True"
proof
  show "BridgeChannel never (\<lambda>j. never) (Chan (map (\<lambda>xs. Chan xs True) xss) c) = Chan (concat xss) c"
    by (simp add: BridgeChannel_def bridge_loop_never)
  have "BridgeChannel never (\<lambda>j. never)
          (Chan (map (\<lambda>xs. Chan xs True) (map (\<lambda>i. [IntV i]) [0, 1, 2, 3, 4, 5, 6, 7, 8, 9])) True)
        = Chan (concat (map (\<lambda>i. [IntV i]) [0, 1, 2, 3, 4, 5, 6, 7, 8, 9])) True"
    unfolding BridgeChannel_def by (rule bridge_loop_never)
  then show "BridgeChannel never (\<lambda>j. never)
       (Chan (map (\<lambda>i. Chan [IntV i] True) [0, 1, 2, 3, 4, 5, 6, 7, 8, 9]) True)
     = Chan (map IntV [0, 1, 2, 3, 4, 5, 6, 7, 8, 9]) True"
    by simp
qed

section \<open>Properties of TeeChannel\<close>

lemma tee_sends_two: "tee_sends t k (Suc (Suc 0)) o1 o2 = Some (o1, o2)"
  by (simp add: tee_sends.simps)

lemma tee_sends_both:
  assumes "\<forall>k. t k \<noteq> TakeDone"
  shows "tee_sends t k 0 True True = Some (False, False)"
proof -
  have "t k \<noteq> TakeDone" and "t (Suc k) \<noteq> TakeDone" using assms by auto
  then show ?thesis
    by (cases "t k"; cases "t (Suc k)";
        simp add: tee_sends.simps[of t k 0] tee_sends.simps[of t "Suc k" "Suc 0"] tee_sends_two)
qed

lemma tee_sends_proceeds: "tee_sends t k 0 True True \<noteq> None"
  by (cases "t k"; cases "t (Suc k)";
      simp add: tee_sends.simps[of t k 0] tee_sends.simps[of t "Suc k" "Suc 0"] tee_sends_two)

lemma tee_range_both:
  assumes "\<forall>k. t k \<noteq> TakeDone"
  shows "tee_range t k (Chan xs c) = (xs, xs, c)"
  by (induction xs arbitrary: k) (simp_all add: tee_sends_both[OF assms])

text \<open>The worker returns exactly when the relay it reads from closes its output.\<close>

lemma tee_range_returned: "snd (snd (tee_range t k (Chan xs c))) = c"
proof (induction xs arbitrary: k)
  case Nil
  show ?case by simp
next
  case (Cons v vs)
  obtain o1 o2 where "tee_sends t k 0 True True = Some (o1, o2)"
    using tee_sends_proceeds[of t k] by (cases "tee_sends t k 0 True True") auto
  with Cons[of "k + 2"] show ?case by (auto split: prod.splits)
qed

lemma tee_worker_returns_iff: "tee_worker_returns d t inp = closed (OrDoneChannel d inp)"
proof -
  obtain xs c where "OrDoneChannel d inp = Chan xs c" by (cases "OrDoneChannel d inp")
  with tee_range_returned[of t 0 xs c] show ?thesis
    by (auto simp: tee_worker_returns_def tee_worker_def split: prod.splits)
qed

lemma tee_worker_returns_input_closed: "closed inp \<Longrightarrow> tee_worker_returns d t inp"
proof -
  assume "closed inp"
  then obtain xs where "inp = Chan xs True" by (cases inp) auto
  then show ?thesis
    by (simp add: tee_worker_returns_iff OrDoneChannel_def OrDone_loop_closed)
qed

lemma tee_worker_returns_cancelled: "d 0 \<Longrightarrow> tee_worker_returns d t inp"
  by (simp add: tee_worker_returns_iff OrDoneChannel_done_first)

text \<open>
  C5. Without cancellation, for a finite source of length L, each of the two streams that
  Tee returns carries, when both are drained, exactly the sequence of the source: the
  two are equal to each other and to the source, element by element, and have length L.
  This holds whichever of the two sends the scheduler favours at each \<^verbatim>\<open>select\<close>.
\<close>

theorem TeeChannel_copies:
  "\<forall>k. t k \<noteq> TakeDone \<Longrightarrow> TeeChannel never t (Chan xs c) = (Chan xs c, Chan xs c)"
  by (simp add: TeeChannel_def tee_worker_def OrDoneChannel_never tee_range_both)

theorem TeeChannel_copies_witness:
  "(\<forall>k. (\<lambda>k. if even k then TakeOut2 else TakeOut1) k \<noteq> TakeDone) \<and>
   TeeChannel never (\<lambda>k. if even k then TakeOut2 else TakeOut1) (Chan [IntV 1, IntV 2, IntV 1, IntV 2] True)
     = (Chan [IntV 1, IntV 2, IntV 1, IntV 2] True, Chan [IntV 1, IntV 2, IntV 1, IntV 2] True)"
  using TeeChannel_copies[of "\<lambda>k. if even k then TakeOut2 else TakeOut1" "[IntV 1, IntV 2, IntV 1, IntV 2]" True]
  by simp

text \<open>
  C10. Whenever the Tee worker returns, be it because the input closed or because the
  cancellation was taken, both outputs are closed, and while it has not returned
  neither is: an output is closed exactly when the worker has returned, so it never
  happens that one output is closed and the other one open.
\<close>

theorem TeeChannel_closes_both:
  "closed (fst (TeeChannel d t inp)) = tee_worker_returns d t inp \<and>
   closed (snd (TeeChannel d t inp)) = tee_worker_returns d t inp"
  by (cases "tee_worker d t inp") (simp add: TeeChannel_def tee_worker_returns_def)

section \<open>Properties of typed extraction\<close>






section \<open>Properties of OrChannel\<close>

text \<open>
  C7. Or applied to no signal returns the nil channel, a signal that never fires:
  whatever channels get closed, a receive from it does not proceed, so a caller that
  waits for it waits for ever. Or applied to exactly one signal returns that very
  signal; it allocates no channel and starts no goroutine.
\<close>

theorem OrChannel_zero_one:
  "OrChannel [] fresh = (NilChan, [], fresh) \<and>
   \<not> signalled cl (fst (OrChannel [] fresh)) \<and>
   OrChannel [c] fresh = (c, [], fresh)"
  by (simp add: OrChannel.simps)

section \<open>Properties of FanInChannel\<close>

lemma nth_split: "i < length cs \<Longrightarrow> cs = take i cs @ cs ! i # drop (Suc i) cs"
  by (simp add: id_take_nth_drop)

lemma length_remove_nth: "i < length cs \<Longrightarrow> int (length (remove_nth i cs)) = int (length cs) - 1"
  by (auto simp: remove_nth_def)

lemma mset_remove_nth:
  "i < length cs \<Longrightarrow>
   mset (concat (map items cs)) = mset (items (cs ! i)) + mset (concat (map items (remove_nth i cs)))"
  using arg_cong[OF nth_split, of i cs "\<lambda>xs. mset (concat (map items xs))"]
  by (simp add: remove_nth_def)

lemma set_remove_nth: "i < length cs \<Longrightarrow> set cs = insert (cs ! i) (set (remove_nth i cs))"
  using arg_cong[OF nth_split, of i cs set] by (simp add: remove_nth_def)

lemma remove_nth_update: "remove_nth i (cs[i := x]) = remove_nth i cs"
  by (simp add: remove_nth_def)

text \<open>
  The invariant of the run without cancellation: the WaitGroup counts the goroutines
  still running plus the \<open>b\<close> goroutines that wait for ever on an input that stays open.
  Then every value still to be read reaches the output, and the output is closed
  exactly if no goroutine waits for ever, now or later.
\<close>

lemma fanin_run_never:
  assumes "\<And>n. \<not> d n"
  shows "wg = int (length running) + int b \<Longrightarrow>
     mset (items (fanin_run pick d k running wg)) = mset (concat (map items running)) \<and>
     closed (fanin_run pick d k running wg) = (b = 0 \<and> (\<forall>c\<in>set running. closed c))"
  using assms
proof (induction pick d k running wg arbitrary: b rule: fanin_run.induct)
  case (1 pick d k running wg)
  note nd = \<open>\<And>n. \<not> d n\<close>
  show ?case
  proof (cases "wg = 0")
    case True
    with "1.prems"(1) have "length running = 0 \<and> b = 0" by linarith
    then have "running = []" "b = 0" by simp_all
    with True show ?thesis by (simp add: fanin_run.simps)
  next
    case wg: False
    show ?thesis
    proof (cases "running = []")
      case True
      with wg "1.prems"(1) show ?thesis by (simp add: fanin_run.simps)
    next
      case nonempty: False
      define i where "i = pick k mod length running"
      have i: "i < length running" using nonempty by (simp add: i_def)
      note parts = mset_remove_nth[OF i] set_remove_nth[OF i]
      obtain vs c where ch: "running ! i = Chan vs c" by (cases "running ! i")
      show ?thesis
      proof (cases "recv (running ! i)")
        case Blocks
        with ch have vs: "vs = []" "\<not> c" by (cases vs; auto split: if_splits)+
        have run: "fanin_run pick d k running wg = fanin_run pick d (Suc k) (remove_nth i running) wg"
          using wg nonempty Blocks by (subst fanin_run.simps) (simp add: i_def)
        have "wg = int (length (remove_nth i running)) + int (Suc b)"
          using "1.prems"(1) length_remove_nth[OF i] by simp
        from "1.IH"(1)[OF wg nonempty i_def Blocks this nd] run parts ch vs
        show ?thesis by auto
      next
        case Closed
        with ch have vs: "vs = []" "c" by (cases vs; auto split: if_splits)+
        have run: "fanin_run pick d k running wg = fanin_run pick d (Suc k) (remove_nth i running) (wg - 1)"
          using wg nonempty Closed by (subst fanin_run.simps) (simp add: i_def)
        have "wg - 1 = int (length (remove_nth i running)) + int b"
          using "1.prems"(1) length_remove_nth[OF i] by simp
        from "1.IH"(2)[OF wg nonempty i_def Closed this nd] run parts ch vs
        show ?thesis by auto
      next
        case (Got v rest)
        with ch have vs: "vs = v # items rest" "closed rest = c" by (cases vs; auto split: if_splits)+
        have run: "fanin_run pick d k running wg = emit v (fanin_run pick d (Suc k) (running[i := rest]) wg)"
          using wg nonempty Got nd by (subst fanin_run.simps) (simp add: i_def)
        have i': "i < length (running[i := rest])" using i by simp
        have "wg = int (length (running[i := rest])) + int b"
          using "1.prems"(1) by simp
        from "1.IH"(4)[OF wg nonempty i_def Got nd this nd] run parts ch vs
          mset_remove_nth[OF i'] set_remove_nth[OF i'] i
        show ?thesis by (auto simp: items_emit closed_emit remove_nth_update)
      qed
    qed
  qed
qed

text \<open>
  C8. Without cancellation, for M source streams and whatever order the scheduler runs
  the multiplex goroutines in, the values that FanIn delivers are, as a multiset, the
  union of the values of all the inputs, and the output is closed exactly if every
  input is closed: it closes once all M inputs are exhausted, not after the first one.
  With no input at all the output closes at once.
\<close>

theorem FanInChannel_multiset:
  "mset (items (FanInChannel pick never channels)) = mset (concat (map items channels)) \<and>
   closed (FanInChannel pick never channels) = (\<forall>c\<in>set channels. closed c) \<and>
   FanInChannel pick d [] = Chan [] True"
proof -
  have "\<And>n. \<not> never n" by (simp add: never_def)
  from fanin_run_never[OF this, where wg = "int (length channels)" and running = channels
      and b = 0 and pick = pick and k = 0]
  show ?thesis by (simp add: FanInChannel_def fanin_run.simps[of pick d 0 "[]" 0])
qed

theorem FanInChannel_multiset_witness:
  "mset (items (FanInChannel (\<lambda>k. k) never [Chan [IntV 1, IntV 2] True, Chan [IntV 3] True]))
     = {#IntV 1, IntV 2, IntV 3#} \<and>
   closed (FanInChannel (\<lambda>k. k) never [Chan [IntV 1, IntV 2] True, Chan [IntV 3] True])"
  using FanInChannel_multiset[of "\<lambda>k. k" "[Chan [IntV 1, IntV 2] True, Chan [IntV 3] True]"]
  by simp

end
